theory Spec2Isabelle
  imports Complex_Main "HOL-Library.Word"
begin

section \<open>Samples and double-precision values\<close>

text \<open>
  A sample is a \<^verbatim>\<open>uint8_t\<close>. The filter computes in \<^verbatim>\<open>double\<close>: a finite
  binary64 value is modelled by the real number it denotes, and every arithmetic
  operation is the exact operation followed by rounding to the nearest value with a
  53-bit significand, ties to even (the IEEE 754 default the compiler targets). The sign
  of zero is not modelled; no operation of the program observes it.
\<close>

type_synonym u8 = "8 word"

datatype double = Finite real | Infinity bool | NaN

text \<open>The number of binary digits of a natural number.\<close>

fun bit_length :: "nat \<Rightarrow> nat" where
  "bit_length n = (if n = 0 then 0 else Suc (bit_length (n div 2)))"

declare bit_length.simps [simp del]

definition pow2 :: "int \<Rightarrow> real" where
  "pow2 e = (if 0 \<le> e then 2 ^ nat e else 1 / 2 ^ nat (- e))"

text \<open>For \<open>q > 0\<close>, the integer \<open>k\<close> with \<open>2 ^ k \<le> q < 2 ^ (k + 1)\<close>.\<close>

definition ilog2 :: "real \<Rightarrow> int" where
  "ilog2 q = (if 1 \<le> q then int (bit_length (nat \<lfloor>q\<rfloor>)) - 1
              else - int (bit_length (nat (\<lceil>1 / q\<rceil> - 1))))"

definition round_half_even :: "real \<Rightarrow> int" where
  "round_half_even q =
     (let f = \<lfloor>q\<rfloor>; r = q - of_int f
      in if r < 1 / 2 then f
         else if 1 / 2 < r then f + 1
         else if even f then f else f + 1)"

text \<open>
  Rounding of an exact result to binary64: the unit in the last place is \<open>2 ^ e\<close>
  with \<open>e\<close> at least -1074 (subnormal range), and a rounded magnitude of \<open>2 ^ 1024\<close>
  or more overflows to an infinity, whose flag is true for the negative one.
\<close>

definition round_binary64 :: "real \<Rightarrow> double" where
  "round_binary64 q =
     (if q = 0 then Finite 0
      else let e = max (ilog2 \<bar>q\<bar> - 52) (- 1074);
               r = of_int (round_half_even (\<bar>q\<bar> / pow2 e)) * pow2 e
           in if pow2 1024 \<le> r then Infinity (q < 0)
              else Finite (if q < 0 then - r else r))"

fun dadd :: "double \<Rightarrow> double \<Rightarrow> double" where
  "dadd (Finite a) (Finite b) = round_binary64 (a + b)"
| "dadd (Finite a) (Infinity t) = Infinity t"
| "dadd (Infinity s) (Finite b) = Infinity s"
| "dadd (Infinity s) (Infinity t) = (if s = t then Infinity s else NaN)"
| "dadd NaN y = NaN"
| "dadd x NaN = NaN"

fun dmul :: "double \<Rightarrow> double \<Rightarrow> double" where
  "dmul (Finite a) (Finite b) = round_binary64 (a * b)"
| "dmul (Finite a) (Infinity t) = (if a = 0 then NaN else Infinity ((a < 0) \<noteq> t))"
| "dmul (Infinity s) (Finite b) = (if b = 0 then NaN else Infinity (s \<noteq> (b < 0)))"
| "dmul (Infinity s) (Infinity t) = Infinity (s \<noteq> t)"
| "dmul NaN y = NaN"
| "dmul x NaN = NaN"

text \<open>The comparison \<^verbatim>\<open>x >= y\<close>; it is false when either side is a NaN.\<close>

fun dge :: "double \<Rightarrow> double \<Rightarrow> bool" where
  "dge (Finite a) (Finite b) = (b \<le> a)"
| "dge (Finite a) (Infinity t) = t"
| "dge (Infinity s) (Finite b) = (\<not> s)"
| "dge (Infinity s) (Infinity t) = (t \<or> \<not> s)"
| "dge NaN y = False"
| "dge x NaN = False"

text \<open>\<^verbatim>\<open>static_cast<double>\<close> of a sample is exact.\<close>

definition double_of_u8 :: "u8 \<Rightarrow> double" where
  "double_of_u8 b = Finite (of_nat (unat b))"

section \<open>The blocking queue\<close>

text \<open>
  \<^verbatim>\<open>BlockingQueue<T>\<close>: the \<^verbatim>\<open>std::queue\<close> it guards is the list of its
  elements, front first. Every operation holds the mutex for its whole body, so an
  operation is one function of the queue. \<^verbatim>\<open>pop\<close> waits while the queue is empty;
  on a queue nobody pushes to it never returns, which is the result \<open>None\<close>.
  \<^verbatim>\<open>try_pop\<close> returns the popped element, or \<open>None\<close> where the code returns false
  and leaves its argument untouched.
\<close>

definition push :: "'a \<Rightarrow> 'a list \<Rightarrow> 'a list" where
  "push item q = q @ [item]"

definition pop :: "'a list \<Rightarrow> ('a \<times> 'a list) option" where
  "pop q = (case q of [] \<Rightarrow> None | item # q' \<Rightarrow> Some (item, q'))"

definition try_pop :: "'a list \<Rightarrow> 'a option \<times> 'a list" where
  "try_pop q = (case q of [] \<Rightarrow> (None, q) | item # q' \<Rightarrow> (Some item, q'))"

definition queue_empty :: "'a list \<Rightarrow> bool" where
  "queue_empty q = (q = [])"

definition queue_size :: "'a list \<Rightarrow> nat" where
  "queue_size q = length q"

section \<open>The filter and threshold block\<close>

text \<open>
  \<^verbatim>\<open>FilterThreshold::FILTER_WINDOW\<close>: each decimal literal denotes the binary64 value
  nearest to it.
\<close>

definition FILTER_WINDOW :: "double list" where
  "FILTER_WINDOW = map round_binary64 [0.05, 0.1, 0.15, 0.2, 0.25, 0.2, 0.15, 0.1, 0.05]"

definition WINDOW_SIZE :: nat where
  "WINDOW_SIZE = 9"

definition PAST_ELEMENTS :: nat where
  "PAST_ELEMENTS = 4"

text \<open>
  One line of the block's output: the value of the element at the window centre, the
  filtered value, and the thresholded result (true is "1 (Defect)").
\<close>

record decision =
  element_value :: u8
  filtered_value :: double
  defect :: bool

text \<open>
  The fields of \<^verbatim>\<open>FilterThreshold\<close> that the processing reads or writes, and the
  decisions printed so far. The pacing interval \<^verbatim>\<open>t_ns_\<close> only delays.
\<close>

record FilterThreshold =
  threshold_value :: double
  running :: bool
  data_buffer :: "u8 list"
  printed :: "decision list"

definition FilterThreshold_init :: "double \<Rightarrow> FilterThreshold" where
  "FilterThreshold_init tv =
     \<lparr>threshold_value = tv, running = True, data_buffer = [], printed = []\<rparr>"

definition stop :: "FilterThreshold \<Rightarrow> FilterThreshold" where
  "stop f = f\<lparr>running := False\<rparr>"

text \<open>The accumulation loop of \<^verbatim>\<open>process_element\<close> over the first nine elements.\<close>

definition filtered_sum :: "u8 list \<Rightarrow> double" where
  "filtered_sum buf =
     foldl (\<lambda>acc i. dadd acc (dmul (double_of_u8 (buf ! i)) (FILTER_WINDOW ! i)))
       (Finite 0) [0..<WINDOW_SIZE]"

definition process_element :: "FilterThreshold \<Rightarrow> FilterThreshold" where
  "process_element f =
     (if length (data_buffer f) < WINDOW_SIZE then f
      else let fv = filtered_sum (data_buffer f);
               d = dge fv (threshold_value f)
           in f\<lparr>printed := printed f @
                    [\<lparr>element_value = data_buffer f ! PAST_ELEMENTS,
                      filtered_value = fv, defect = d\<rparr>],
                 data_buffer := tl (data_buffer f)\<rparr>)"

text \<open>
  \<^verbatim>\<open>push_back\<close> of one sample followed by the guarded call of
  \<^verbatim>\<open>process_element\<close>, as the loop of \<^verbatim>\<open>run\<close> does for each half of a pair.
\<close>

definition ingest :: "u8 \<Rightarrow> FilterThreshold \<Rightarrow> FilterThreshold" where
  "ingest x f =
     (let f' = f\<lparr>data_buffer := data_buffer f @ [x]\<rparr>
      in if WINDOW_SIZE \<le> length (data_buffer f') then process_element f' else f')"

text \<open>
  What one cycle of the loop observes: \<^verbatim>\<open>try_pop\<close> delivered a pair, or it found
  the queue empty; then the cycle reads \<^verbatim>\<open>producer_finished_flag_\<close> and
  \<^verbatim>\<open>input_queue_.empty()\<close>, whose values the observation carries.
\<close>

datatype poll = Got "u8 \<times> u8" | Empty bool bool

text \<open>
  The main loop of \<^verbatim>\<open>run\<close> against the observations of its cycles. The result
  is \<open>None\<close> when the observations end while the loop is still polling.
\<close>

fun run_loop :: "poll list \<Rightarrow> FilterThreshold \<Rightarrow> FilterThreshold option" where
  "run_loop [] f = (if running f then None else Some f)"
| "run_loop (Got pr # ps) f =
     (if running f then run_loop ps (ingest (snd pr) (ingest (fst pr) f)) else Some f)"
| "run_loop (Empty fin emp # ps) f =
     (if running f then (if fin \<and> emp then Some f else run_loop ps f) else Some f)"

text \<open>The loop after the main loop: every remaining full window is processed.\<close>

function drain :: "FilterThreshold \<Rightarrow> FilterThreshold" where
  "drain f = (if WINDOW_SIZE \<le> length (data_buffer f) then drain (process_element f) else f)"
  by pat_completeness auto
termination
  by (relation "measure (\<lambda>f. length (data_buffer f))")
     (auto simp: process_element_def WINDOW_SIZE_def Let_def)

declare drain.simps [simp del]

definition run :: "poll list \<Rightarrow> FilterThreshold \<Rightarrow> FilterThreshold option" where
  "run ps f = map_option drain (run_loop ps f)"

section \<open>Streams\<close>

record istream =
  unread :: string
  eofbit :: bool
  failbit :: bool

record ifstream = istream +
  is_open :: bool

definition getline :: "char \<Rightarrow> 'a istream_scheme \<Rightarrow> bool \<times> string \<times> 'a istream_scheme" where
  "getline delim s =
     (if eofbit s \<or> failbit s then (False, [], s\<lparr>failbit := True\<rparr>)
      else if unread s = [] then (False, [], s\<lparr>eofbit := True, failbit := True\<rparr>)
      else if delim \<in> set (unread s)
        then (True, takeWhile (\<lambda>c. c \<noteq> delim) (unread s),
              s\<lparr>unread := tl (dropWhile (\<lambda>c. c \<noteq> delim) (unread s))\<rparr>)
      else (True, unread s, s\<lparr>unread := [], eofbit := True\<rparr>))"

definition stringstream :: "string \<Rightarrow> istream" where
  "stringstream str = \<lparr>unread = str, eofbit = False, failbit = False\<rparr>"

lemma length_tl_dropWhile_less:
  "xs \<noteq> [] \<Longrightarrow> length (tl (dropWhile P xs)) < length xs"
proof -
  assume "xs \<noteq> []"
  then have "0 < length xs"
    by simp
  moreover have "length (tl (dropWhile P xs)) = length (dropWhile P xs) - 1"
    by simp
  moreover have "length (dropWhile P xs) \<le> length xs"
    by (rule length_dropWhile_le)
  ultimately show ?thesis
    by linarith
qed

lemma getline_unread_less:
  "fst (getline delim s) \<Longrightarrow> length (unread (snd (snd (getline delim s)))) < length (unread s)"
  by (cases "eofbit s \<or> failbit s"; cases "unread s = []"; cases "delim \<in> set (unread s)")
     (simp_all add: getline_def length_tl_dropWhile_less del: length_tl)

function cells_of :: "istream \<Rightarrow> string list" where
  "cells_of ss =
     (let r = getline (CHR '','') ss
      in if fst r then fst (snd r) # cells_of (snd (snd r)) else [])"
  by pat_completeness auto
termination
  by (relation "measure (\<lambda>ss. length (unread ss))") (simp_all add: getline_unread_less)

declare cells_of.simps [simp del]

datatype stoi_error = invalid_argument | out_of_range

definition isspace :: "char \<Rightarrow> bool" where
  "isspace c = ((of_char c :: nat) \<in> {9, 10, 11, 12, 13, 32})"

definition isdigit :: "char \<Rightarrow> bool" where
  "isdigit c = (48 \<le> (of_char c :: nat) \<and> (of_char c :: nat) \<le> 57)"

definition digits_value :: "string \<Rightarrow> int" where
  "digits_value ds = foldl (\<lambda>acc c. 10 * acc + (of_char c - 48)) 0 ds"

definition stoi :: "string \<Rightarrow> stoi_error + int" where
  "stoi str =
     (let t = dropWhile isspace str;
          neg = (t \<noteq> [] \<and> hd t = CHR ''-'');
          u = (if t \<noteq> [] \<and> (hd t = CHR ''-'' \<or> hd t = CHR ''+'') then tl t else t);
          ds = takeWhile isdigit u
      in if ds = [] then Inl invalid_argument
         else let v = (if neg then - digits_value ds else digits_value ds)
              in if v < - 2147483648 \<or> 2147483647 < v then Inl out_of_range
                 else Inr v)"

section \<open>The data generator\<close>

datatype message =
    CouldNotOpen string
  | StreamNotOpen
  | InvalidArgument int string
  | OutOfRange int string
  | FewerColumns int int int
  | OneElementDiscarded u8
  | ModeButNotOpen
  | EndOfCsvData
  | ExitingRunLoop

record DataGenerator =
  output_queue :: "(u8 \<times> u8) list"
  m_columns :: int
  files :: "string \<Rightarrow> string option"
  csv_filepath :: string
  use_csv_mode :: bool
  gen_running :: bool
  random_engine :: "nat \<Rightarrow> u8"
  random_drawn :: nat
  csv_file_stream :: ifstream
  current_row_values :: "u8 list"
  current_row_idx :: nat
  line_number :: int
  csv_buffer :: "u8 list"
  console :: "message list"

definition newline :: char where
  "newline = CHR 0x0A"

definition open_csv :: "DataGenerator \<Rightarrow> bool \<times> DataGenerator" where
  "open_csv g =
     (if csv_filepath g \<noteq> [] then
        (if is_open (csv_file_stream g)
         then (True, g\<lparr>csv_file_stream := (csv_file_stream g)\<lparr>failbit := True\<rparr>\<rparr>)
         else case files g (csv_filepath g) of
                Some text \<Rightarrow>
                  (True, g\<lparr>csv_file_stream :=
                     \<lparr>unread = text, eofbit = False, failbit = False, is_open = True\<rparr>\<rparr>)
              | None \<Rightarrow>
                  (False, g\<lparr>csv_file_stream := (csv_file_stream g)\<lparr>failbit := True\<rparr>\<rparr>))
      else (False, g))"

definition DataGenerator_init ::
  "(string \<Rightarrow> string option) \<Rightarrow> (nat \<Rightarrow> u8) \<Rightarrow> (u8 \<times> u8) list \<Rightarrow> int \<Rightarrow> string
     \<Rightarrow> DataGenerator" where
  "DataGenerator_init fs rnd q m path =
     (let g = \<lparr>output_queue = q, m_columns = m, files = fs, csv_filepath = path,
                use_csv_mode = (path \<noteq> []), gen_running = True,
                random_engine = rnd, random_drawn = 0,
                csv_file_stream =
                  \<lparr>unread = [], eofbit = False, failbit = False, is_open = False\<rparr>,
                current_row_values = [], current_row_idx = 0, line_number = 0,
                csv_buffer = [], console = []\<rparr>
      in if use_csv_mode g
         then (let r = open_csv g
               in if fst r then snd r
                  else (snd r)\<lparr>console := console (snd r) @ [CouldNotOpen path]\<rparr>)
         else g)"

definition generator_stop :: "DataGenerator \<Rightarrow> DataGenerator" where
  "generator_stop g =
     (let g' = g\<lparr>gen_running := False\<rparr>
      in if is_open (csv_file_stream g')
         then g'\<lparr>csv_file_stream := (csv_file_stream g')\<lparr>is_open := False\<rparr>\<rparr>
         else g')"

definition generate_random_pair :: "DataGenerator \<Rightarrow> DataGenerator" where
  "generate_random_pair g =
     (let val1 = random_engine g (random_drawn g);
          val2 = random_engine g (random_drawn g + 1)
      in g\<lparr>random_drawn := random_drawn g + 2,
            output_queue := push (val1, val2) (output_queue g)\<rparr>)"

text \<open>The body of the loop over the cells of a line.\<close>

definition parse_cell ::
  "int \<Rightarrow> int \<Rightarrow> int \<times> u8 list \<times> message list \<Rightarrow> string
     \<Rightarrow> int \<times> u8 list \<times> message list" where
  "parse_cell m lno st cell =
     (let count = fst st; row = fst (snd st); out = snd (snd st)
      in if count < m \<or> m \<le> 0
         then (case stoi cell of
                 Inr v \<Rightarrow> (count + 1, row @ [word_of_int v], out)
               | Inl invalid_argument \<Rightarrow> (count + 1, row, out @ [InvalidArgument lno cell])
               | Inl out_of_range \<Rightarrow> (count + 1, row, out @ [OutOfRange lno cell]))
         else (count + 1, row, out))"

definition parse_line :: "int \<Rightarrow> int \<Rightarrow> string \<Rightarrow> u8 list \<times> message list" where
  "parse_line m lno line =
     (let st = foldl (parse_cell m lno) (0, [], []) (cells_of (stringstream line));
          count = fst st; row = fst (snd st); out = snd (snd st)
      in (row, if 0 < m \<and> count < m then out @ [FewerColumns lno m count] else out))"

definition take_value :: "DataGenerator \<Rightarrow> DataGenerator" where
  "take_value g =
     g\<lparr>csv_buffer := csv_buffer g @ [current_row_values g ! current_row_idx g],
       current_row_idx := current_row_idx g + 1\<rparr>"

definition new_row :: "DataGenerator \<Rightarrow> string \<Rightarrow> ifstream \<Rightarrow> DataGenerator" where
  "new_row g line s =
     (let lno = line_number g + 1; r = parse_line (m_columns g) lno line
      in g\<lparr>csv_file_stream := s, line_number := lno, current_row_values := fst r,
            current_row_idx := 0, console := console g @ snd r\<rparr>)"

function fill_buffer :: "DataGenerator \<Rightarrow> DataGenerator" where
  "fill_buffer g =
     (if length (csv_buffer g) < 2 then
        (if current_row_idx g < length (current_row_values g) then fill_buffer (take_value g)
         else if fst (getline newline (csv_file_stream g)) then
           (let g1 = new_row g (fst (snd (getline newline (csv_file_stream g))))
                       (snd (snd (getline newline (csv_file_stream g))))
            in if current_row_idx g1 < length (current_row_values g1)
               then fill_buffer (take_value g1)
               else if eofbit (csv_file_stream g1) \<and> current_row_values g1 = [] then g1
               else fill_buffer g1)
         else g\<lparr>csv_file_stream := snd (snd (getline newline (csv_file_stream g)))\<rparr>)
      else g)"
  by pat_completeness auto
termination
  by (relation "measure (\<lambda>g. length (unread (csv_file_stream g)) + (2 - length (csv_buffer g)))")
     (auto simp: take_value_def new_row_def Let_def dest: getline_unread_less)

declare fill_buffer.simps [simp del]

definition read_csv_pair :: "DataGenerator \<Rightarrow> bool \<times> DataGenerator" where
  "read_csv_pair g0 =
     (let r = (if is_open (csv_file_stream g0) then (True, g0) else open_csv g0)
      in if \<not> fst r then (False, (snd r)\<lparr>console := console (snd r) @ [StreamNotOpen]\<rparr>)
         else let g = fill_buffer (snd r)
              in if 2 \<le> length (csv_buffer g)
                 then (True, g\<lparr>csv_buffer := drop 2 (csv_buffer g),
                                output_queue :=
                                  push (csv_buffer g ! 0, csv_buffer g ! 1) (output_queue g)\<rparr>)
                 else if csv_buffer g \<noteq> [] \<and> eofbit (csv_file_stream g) \<and>
                         length (current_row_values g) \<le> current_row_idx g
                 then (False, g\<lparr>console := console g @ [OneElementDiscarded (csv_buffer g ! 0)],
                                 csv_buffer := []\<rparr>)
                 else (False, g))"

partial_function (option) generator_loop :: "DataGenerator \<Rightarrow> DataGenerator option" where
  "generator_loop g =
     (if gen_running g then
        (if use_csv_mode g then
           (if fst (read_csv_pair g) then generator_loop (snd (read_csv_pair g))
            else generator_loop
                   (generator_stop
                      ((snd (read_csv_pair g))
                         \<lparr>console := console (snd (read_csv_pair g)) @ [EndOfCsvData]\<rparr>)))
         else generator_loop (generate_random_pair g))
      else Some g)"

declare generator_loop.simps [code]

definition generator_run :: "DataGenerator \<Rightarrow> DataGenerator option" where
  "generator_run g =
     (let g1 = (if use_csv_mode g \<and> \<not> is_open (csv_file_stream g)
                then g\<lparr>console := console g @ [ModeButNotOpen], gen_running := False\<rparr>
                else g)
      in case generator_loop g1 of
           None \<Rightarrow> None
         | Some g2 \<Rightarrow>
             Some ((if is_open (csv_file_stream g2)
                    then g2\<lparr>csv_file_stream := (csv_file_stream g2)\<lparr>is_open := False\<rparr>\<rparr>
                    else g2)\<lparr>console := console g2 @ [ExitingRunLoop]\<rparr>))"

subsection \<open>The stream a run has ingested\<close>

text \<open>
  The samples the main loop pushes into \<^verbatim>\<open>data_buffer_\<close>, in order: both halves
  of every delivered pair, up to the cycle that breaks out of the loop.
\<close>

fun ingested :: "poll list \<Rightarrow> u8 list" where
  "ingested [] = []"
| "ingested (Got pr # ps) = fst pr # snd pr # ingested ps"
| "ingested (Empty fin emp # ps) = (if fin \<and> emp then [] else ingested ps)"

text \<open>Whether some cycle finds the queue empty with the flag set.\<close>

fun exits :: "poll list \<Rightarrow> bool" where
  "exits [] = False"
| "exits (Got pr # ps) = exits ps"
| "exits (Empty fin emp # ps) = ((fin \<and> emp) \<or> exits ps)"

text \<open>
  The specification's window sum for the sample at index \<open>i\<close> of a stream: the terms
  \<open>seq[i + k] * kernel[k + 4]\<close> for \<open>k\<close> from -4 to 4, accumulated in double
  precision from 0.0 in that order (the index \<open>k\<close> below is shifted by 4).
\<close>

definition window_sum :: "u8 list \<Rightarrow> nat \<Rightarrow> double" where
  "window_sum seq i =
     foldl (\<lambda>acc k. dadd acc (dmul (double_of_u8 (seq ! (i + k - 4))) (FILTER_WINDOW ! k)))
       (Finite 0) [0..<9]"

text \<open>The decision \<^verbatim>\<open>process_element\<close> prints for a buffer that starts with window \<open>w\<close>.\<close>

definition window_decision :: "double \<Rightarrow> u8 list \<Rightarrow> decision" where
  "window_decision tv w =
     \<lparr>element_value = w ! PAST_ELEMENTS, filtered_value = filtered_sum w,
      defect = dge (filtered_sum w) tv\<rparr>"

text \<open>A run over five pairs, used for concrete instances.\<close>

definition demo_polls :: "poll list" where
  "demo_polls = [Got (0, 0), Got (0, 0), Got (100, 0), Got (0, 0), Got (0, 0), Empty True True]"

subsection \<open>What a file holds\<close>

definition cell_values :: "string list \<Rightarrow> u8 list" where
  "cell_values cells =
     concat (map (\<lambda>c. case stoi c of Inr v \<Rightarrow> [word_of_int v] | Inl e \<Rightarrow> []) cells)"

definition cell_errors :: "int \<Rightarrow> string list \<Rightarrow> message list" where
  "cell_errors lno cells =
     concat (map (\<lambda>c. case stoi c of
                          Inr v \<Rightarrow> []
                        | Inl invalid_argument \<Rightarrow> [InvalidArgument lno c]
                        | Inl out_of_range \<Rightarrow> [OutOfRange lno c]) cells)"

definition used_cells :: "int \<Rightarrow> string list \<Rightarrow> string list" where
  "used_cells m cells = (if 0 < m then take (nat m) cells else cells)"

function lines_from :: "ifstream \<Rightarrow> string list" where
  "lines_from s =
     (let r = getline newline s
      in if fst r then fst (snd r) # lines_from (snd (snd r)) else [])"
  by pat_completeness auto
termination
  by (relation "measure (\<lambda>s. length (unread s))") (simp_all add: getline_unread_less)

declare lines_from.simps [simp del]

definition stream_values :: "int \<Rightarrow> ifstream \<Rightarrow> u8 list" where
  "stream_values m s = concat (map (\<lambda>line. fst (parse_line m 0 line)) (lines_from s))"

definition pending :: "DataGenerator \<Rightarrow> u8 list" where
  "pending g =
     csv_buffer g @ drop (current_row_idx g) (current_row_values g) @
     stream_values (m_columns g) (csv_file_stream g)"

fun pairs :: "'a list \<Rightarrow> ('a \<times> 'a) list" where
  "pairs (a # b # xs) = (a, b) # pairs xs"
| "pairs xs = []"

definition discarded :: "message list \<Rightarrow> u8 list" where
  "discarded out = concat (map (\<lambda>msg. case msg of OneElementDiscarded v \<Rightarrow> [v] | _ \<Rightarrow> []) out)"

definition stream_ok :: "ifstream \<Rightarrow> bool" where
  "stream_ok s = (if failbit s then eofbit s else True)"

definition fill_post :: "DataGenerator \<Rightarrow> DataGenerator \<Rightarrow> bool" where
  "fill_post g g' =
     (output_queue g' = output_queue g \<and> m_columns g' = m_columns g \<and>
      files g' = files g \<and> csv_filepath g' = csv_filepath g \<and>
      use_csv_mode g' = use_csv_mode g \<and> gen_running g' = gen_running g \<and>
      random_engine g' = random_engine g \<and> random_drawn g' = random_drawn g \<and>
      is_open (csv_file_stream g') = is_open (csv_file_stream g) \<and>
      discarded (console g') = discarded (console g) \<and>
      pending g' = pending g \<and> stream_ok (csv_file_stream g') \<and>
      (length (csv_buffer g) \<le> 2 \<longrightarrow> length (csv_buffer g') \<le> 2) \<and>
      (length (csv_buffer g') < 2 \<longrightarrow>
         eofbit (csv_file_stream g') \<and>
         length (current_row_values g') \<le> current_row_idx g' \<and>
         stream_values (m_columns g) (csv_file_stream g') = []))"

definition leftover :: "'a list \<Rightarrow> 'a list" where
  "leftover xs = (if odd (length xs) then [last xs] else [])"

definition file_values :: "int \<Rightarrow> string \<Rightarrow> u8 list" where
  "file_values m text =
     stream_values m \<lparr>unread = text, eofbit = False, failbit = False, is_open = True\<rparr>"

definition summary :: "DataGenerator \<Rightarrow> (u8 \<times> u8) list \<times> u8 list" where
  "summary g = (output_queue g, discarded (console g))"

definition gen_inv :: "DataGenerator \<Rightarrow> bool" where
  "gen_inv g =
     (use_csv_mode g \<and> is_open (csv_file_stream g) \<and> stream_ok (csv_file_stream g) \<and>
      length (csv_buffer g) < 2)"

text \<open>A file of one row with seven values, used for concrete instances.\<close>

definition seven_values :: string where
  "seven_values = ''1,2,3,4,5,6,7'' @ [newline]"

definition scan_files :: "string \<Rightarrow> string option" where
  "scan_files = [''scan.csv'' \<mapsto> seven_values]"

subsection \<open>Receiving from the queue\<close>

text \<open>
  A consumer receives with \<^verbatim>\<open>try_pop\<close> (a poll) or with \<^verbatim>\<open>pop\<close> (a take).
  \<open>receive_all\<close> performs a sequence of such calls on a queue nobody else touches
  and collects what each call delivered; it is \<open>None\<close> when a take would wait forever.
\<close>

datatype receive = Poll | Take

fun receive_all :: "receive list \<Rightarrow> 'a list \<Rightarrow> ('a option list \<times> 'a list) option" where
  "receive_all [] q = Some ([], q)"
| "receive_all (Poll # ops) q =
     (case receive_all ops (snd (try_pop q)) of
        None \<Rightarrow> None
      | Some (items, q') \<Rightarrow> Some (fst (try_pop q) # items, q'))"
| "receive_all (Take # ops) q =
     (case pop q of
        None \<Rightarrow> None
      | Some (item, q1) \<Rightarrow>
          (case receive_all ops q1 of
             None \<Rightarrow> None
           | Some (items, q') \<Rightarrow> Some (Some item # items, q')))"

section \<open>The two workers and the coordinator\<close>

text \<open>
  \<^verbatim>\<open>main\<close> starts the generator and the filter in two threads, joins the
  generator's thread, sets \<^verbatim>\<open>producer_is_finished\<close>, and joins the filter's thread.
  The three threads are modelled by their atomic steps, taken one at a time in any order:
  every queue operation holds the queue's mutex, and the flag is read and written in
  single steps. The generator's thread is any producer: while it runs it may push any
  pair, and it may exit; the loop of \<^verbatim>\<open>DataGenerator::run\<close> pushes only inside the
  loop, so it is one of these. The filter's thread is the loop of
  \<^verbatim>\<open>FilterThreshold::run\<close>, statement by statement.
\<close>

datatype main_pc = JoinProducer | SetFlag | JoinConsumer | Done

datatype consumer_pc = Polling | ReadFlag | CheckEmpty | AfterLoop | Exited

record pipeline =
  data_queue :: "(u8 \<times> u8) list"
  producer_is_finished :: bool
  producer_running :: bool
  main_at :: main_pc
  consumer_at :: consumer_pc
  filter_thresh :: FilterThreshold

datatype action = ProducerPush "u8 \<times> u8" | ProducerExit | MainStep | ConsumerStep

definition pipeline_init :: "double \<Rightarrow> pipeline" where
  "pipeline_init tv =
     \<lparr>data_queue = [], producer_is_finished = False, producer_running = True,
      main_at = JoinProducer, consumer_at = Polling, filter_thresh = FilterThreshold_init tv\<rparr>"

fun main_step :: "pipeline \<Rightarrow> pipeline option" where
  "main_step s =
     (case main_at s of
        JoinProducer \<Rightarrow> if producer_running s then None else Some (s\<lparr>main_at := SetFlag\<rparr>)
      | SetFlag \<Rightarrow> Some (s\<lparr>producer_is_finished := True, main_at := JoinConsumer\<rparr>)
      | JoinConsumer \<Rightarrow> if consumer_at s = Exited then Some (s\<lparr>main_at := Done\<rparr>) else None
      | Done \<Rightarrow> None)"

fun consumer_step :: "pipeline \<Rightarrow> pipeline option" where
  "consumer_step s =
     (case consumer_at s of
        Polling \<Rightarrow>
          if \<not> running (filter_thresh s) then Some (s\<lparr>consumer_at := AfterLoop\<rparr>)
          else (case fst (try_pop (data_queue s)) of
                  Some pr \<Rightarrow>
                    Some (s\<lparr>data_queue := snd (try_pop (data_queue s)),
                            filter_thresh := ingest (snd pr) (ingest (fst pr) (filter_thresh s))\<rparr>)
                | None \<Rightarrow> Some (s\<lparr>consumer_at := ReadFlag\<rparr>))
      | ReadFlag \<Rightarrow>
          Some (s\<lparr>consumer_at := (if producer_is_finished s then CheckEmpty else Polling)\<rparr>)
      | CheckEmpty \<Rightarrow>
          Some (s\<lparr>consumer_at := (if queue_empty (data_queue s) then AfterLoop else Polling)\<rparr>)
      | AfterLoop \<Rightarrow>
          Some (s\<lparr>filter_thresh := drain (filter_thresh s), consumer_at := Exited\<rparr>)
      | Exited \<Rightarrow> None)"

fun step :: "action \<Rightarrow> pipeline \<Rightarrow> pipeline option" where
  "step (ProducerPush pr) s =
     (if producer_running s then Some (s\<lparr>data_queue := push pr (data_queue s)\<rparr>) else None)"
| "step ProducerExit s =
     (if producer_running s then Some (s\<lparr>producer_running := False\<rparr>) else None)"
| "step MainStep s = main_step s"
| "step ConsumerStep s = consumer_step s"

fun exec :: "action list \<Rightarrow> pipeline \<Rightarrow> pipeline option" where
  "exec [] s = Some s"
| "exec (a # as) s = (case step a s of None \<Rightarrow> None | Some s' \<Rightarrow> exec as s')"

definition handshake_inv :: "pipeline \<Rightarrow> bool" where
  "handshake_inv s =
     (running (filter_thresh s) \<and>
      (if main_at s = JoinProducer then \<not> producer_is_finished s else \<not> producer_running s) \<and>
      (if producer_is_finished s then \<not> producer_running s else True) \<and>
      (if consumer_at s = CheckEmpty then producer_is_finished s else True) \<and>
      (if consumer_at s = AfterLoop \<or> consumer_at s = Exited
       then producer_is_finished s \<and> data_queue s = [] else True) \<and>
      (if consumer_at s = Exited then length (data_buffer (filter_thresh s)) < WINDOW_SIZE
       else True))"

text \<open>A schedule in which two pairs are produced and consumed, used for a concrete instance.\<close>

definition demo_schedule :: "action list" where
  "demo_schedule =
     [ProducerPush (1, 2), ConsumerStep, ConsumerStep, ConsumerStep, ProducerPush (3, 4),
      ProducerExit, MainStep, ConsumerStep, MainStep, ConsumerStep, ConsumerStep,
      ConsumerStep, ConsumerStep, MainStep]"

section \<open>Properties of the filter\<close>

lemma ingest_running [simp]: "running (ingest x f) = running f"
  by (simp add: ingest_def process_element_def Let_def)

lemma ingest_threshold [simp]: "threshold_value (ingest x f) = threshold_value f"
  by (simp add: ingest_def process_element_def Let_def)

lemma ingest_buffer:
  "data_buffer (ingest x f) =
     (if WINDOW_SIZE \<le> length (data_buffer f) + 1 then tl (data_buffer f @ [x])
      else data_buffer f @ [x])"
  by (simp add: ingest_def process_element_def Let_def)

lemma ingest_printed:
  "printed (ingest x f) =
     (if WINDOW_SIZE \<le> length (data_buffer f) + 1
      then printed f @ [window_decision (threshold_value f) (data_buffer f @ [x])]
      else printed f)"
  by (simp add: ingest_def process_element_def window_decision_def Let_def)

lemma fold_ingest_running [simp]: "running (fold ingest xs f) = running f"
  by (induction xs arbitrary: f) simp_all

lemma fold_ingest_threshold [simp]: "threshold_value (fold ingest xs f) = threshold_value f"
  by (induction xs arbitrary: f) simp_all

lemma run_loop_fold:
  "running f \<Longrightarrow>
   run_loop ps f = (if exits ps then Some (fold ingest (ingested ps) f) else None)"
  by (induction ps f rule: run_loop.induct) simp_all

lemma fold_ingest_buffer:
  "data_buffer f = [] \<Longrightarrow> data_buffer (fold ingest xs f) = drop (length xs - 8) xs"
proof (induction xs rule: rev_induct)
  case Nil
  then show ?case by simp
next
  case (snoc x xs)
  show ?case
  proof (cases "8 \<le> length xs")
    case True
    then have "Suc (length xs - 8) = length xs - 7"
      by simp
    then have "tl (drop (length xs - 8) xs) = drop (length xs - 7) xs"
      by (simp add: tl_drop drop_Suc[symmetric] del: drop_tl)
    with True snoc show ?thesis
      by (simp add: ingest_buffer WINDOW_SIZE_def)
  next
    case False
    with snoc show ?thesis
      by (simp add: ingest_buffer WINDOW_SIZE_def)
  qed
qed

lemma fold_ingest_printed:
  "data_buffer f = [] \<Longrightarrow> printed f = [] \<Longrightarrow>
   printed (fold ingest xs f) =
     map (\<lambda>j. window_decision (threshold_value f) (take 9 (drop j xs))) [0..<length xs - 8]"
proof (induction xs rule: rev_induct)
  case Nil
  then show ?case by simp
next
  case (snoc x xs)
  let ?g = "fold ingest xs f"
  let ?d = "\<lambda>ys j. window_decision (threshold_value f) (take 9 (drop j ys))"
  have buf: "data_buffer ?g = drop (length xs - 8) xs"
    using snoc.prems by (simp add: fold_ingest_buffer)
  have step: "printed (fold ingest (xs @ [x]) f) = printed (ingest x ?g)"
    by simp
  show ?case
  proof (cases "8 \<le> length xs")
    case True
    have idx: "[0..<length (xs @ [x]) - 8] = [0..<length xs - 8] @ [length xs - 8]"
    proof -
      from True have "length (xs @ [x]) - 8 = Suc (length xs - 8)"
        by simp
      then show ?thesis
        by (simp only: upt_Suc_append le0 if_True upt_Suc)
    qed
    have old: "map (?d (xs @ [x])) [0..<length xs - 8] = map (?d xs) [0..<length xs - 8]"
      by (rule map_cong) auto
    have new: "?d (xs @ [x]) (length xs - 8) =
               window_decision (threshold_value f) (data_buffer ?g @ [x])"
      using True by (simp add: buf)
    have "printed (ingest x ?g) =
          printed ?g @ [window_decision (threshold_value f) (data_buffer ?g @ [x])]"
      using True by (simp add: ingest_printed buf WINDOW_SIZE_def)
    also have "\<dots> = map (?d (xs @ [x])) [0..<length xs - 8] @ [?d (xs @ [x]) (length xs - 8)]"
      using snoc by (simp only: old new)
    also have "\<dots> = map (?d (xs @ [x])) [0..<length (xs @ [x]) - 8]"
      by (simp only: idx map_append list.map)
    finally show ?thesis
      by (simp only: step)
  next
    case False
    with snoc show ?thesis
      by (simp add: ingest_printed fold_ingest_buffer WINDOW_SIZE_def)
  qed
qed

lemma drain_short: "length (data_buffer f) < WINDOW_SIZE \<Longrightarrow> drain f = f"
  by (simp add: drain.simps)

lemma run_init:
  "run ps (FilterThreshold_init tv) =
     (if exits ps then Some (fold ingest (ingested ps) (FilterThreshold_init tv)) else None)"
proof -
  have "length (data_buffer (fold ingest (ingested ps) (FilterThreshold_init tv))) < WINDOW_SIZE"
    by (simp add: fold_ingest_buffer FilterThreshold_init_def WINDOW_SIZE_def)
  then show ?thesis
    by (simp add: run_def run_loop_fold drain_short FilterThreshold_init_def)
qed

lemma filtered_sum_window:
  "4 \<le> i \<Longrightarrow> i + 5 \<le> length seq \<Longrightarrow>
   filtered_sum (take 9 (drop (i - 4) seq)) = window_sum seq i"
  unfolding filtered_sum_def window_sum_def WINDOW_SIZE_def
  by (rule foldl_cong) (auto simp: add.commute)

lemmas fp_eval = round_binary64_def ilog2_def pow2_def round_half_even_def bit_length.simps Let_def

lemma FILTER_WINDOW_values:
  "FILTER_WINDOW =
     [Finite (3602879701896397 / 72057594037927936),
      Finite (3602879701896397 / 36028797018963968),
      Finite (5404319552844595 / 36028797018963968),
      Finite (3602879701896397 / 18014398509481984),
      Finite (1 / 4),
      Finite (3602879701896397 / 18014398509481984),
      Finite (5404319552844595 / 36028797018963968),
      Finite (3602879701896397 / 36028797018963968),
      Finite (3602879701896397 / 72057594037927936)]"
  by (simp add: FILTER_WINDOW_def fp_eval)

lemma upt_9: "[0..<9] = [0, 1, 2, 3, 4, 5, 6, 7, 8 :: nat]"
  by (simp add: upt_rec)

lemma filtered_sum_hundreds:
  "filtered_sum [100, 100, 100, 100, 100, 100, 100, 100, 100] = Finite 125"
  by (simp add: filtered_sum_def WINDOW_SIZE_def upt_9 FILTER_WINDOW_values
      double_of_u8_def fp_eval)

lemma nine_hundreds_printed:
  "printed (fold ingest [100, 100, 100, 100, 100, 100, 100, 100, 100]
      (FilterThreshold_init tv)) =
     [\<lparr>element_value = 100, filtered_value = Finite 125, defect = dge (Finite 125) tv\<rparr>]"
proof -
  let ?xs = "[100, 100, 100, 100, 100, 100, 100, 100, 100] :: u8 list"
  have "printed (fold ingest ?xs (FilterThreshold_init tv)) =
      map (\<lambda>j. window_decision (threshold_value (FilterThreshold_init tv))
        (take 9 (drop j ?xs))) [0..<length ?xs - 8]"
    by (rule fold_ingest_printed) (simp_all add: FilterThreshold_init_def)
  also have "\<dots> = [\<lparr>element_value = 100, filtered_value = Finite 125,
      defect = dge (Finite 125) tv\<rparr>]"
    by (simp add: window_decision_def filtered_sum_hundreds PAST_ELEMENTS_def
        FilterThreshold_init_def)
  finally show ?thesis .
qed

text \<open>
  C1 (window correctness). For a run of the filter that ends, the decision printed for
  the sample at index \<open>i\<close> of the ingested stream, \<open>4 \<le> i \<le> len - 5\<close>, is the
  \<open>(i - 4)\<close>-th one; its thresholded result is "defect" exactly when the double-precision
  window sum around \<open>i\<close> is at least the threshold, and the element it names is the
  sample at index 4 of the nine-element window that starts four samples before \<open>i\<close>.
\<close>

theorem window_correctness:
  assumes "run ps (FilterThreshold_init tv) = Some f"
    and "4 \<le> i" and "i + 5 \<le> length (ingested ps)"
  shows "i - 4 < length (printed f) \<and>
         printed f ! (i - 4) =
           \<lparr>element_value = ingested ps ! i,
            filtered_value = window_sum (ingested ps) i,
            defect = dge (window_sum (ingested ps) i) tv\<rparr> \<and>
         element_value (printed f ! (i - 4)) =
           take WINDOW_SIZE (drop (i - 4) (ingested ps)) ! PAST_ELEMENTS"
proof -
  let ?seq = "ingested ps"
  from assms(1) have f: "f = fold ingest ?seq (FilterThreshold_init tv)"
    by (simp add: run_init split: if_splits)
  have pr: "printed f =
      map (\<lambda>j. window_decision tv (take 9 (drop j ?seq))) [0..<length ?seq - 8]"
    unfolding f by (simp add: fold_ingest_printed FilterThreshold_init_def)
  from assms(2,3) have lt: "i - 4 < length ?seq - 8"
    by simp
  then have nth: "printed f ! (i - 4) = window_decision tv (take 9 (drop (i - 4) ?seq))"
    by (simp add: pr)
  have centre: "take 9 (drop (i - 4) ?seq) ! 4 = ?seq ! i"
    using assms(2,3) by simp
  from lt have "i - 4 < length (printed f)"
    by (simp add: pr)
  moreover have "printed f ! (i - 4) =
      \<lparr>element_value = ?seq ! i, filtered_value = window_sum ?seq i,
       defect = dge (window_sum ?seq i) tv\<rparr>"
    using assms(2,3)
    by (simp add: nth window_decision_def filtered_sum_window PAST_ELEMENTS_def centre)
  moreover have "element_value (printed f ! (i - 4)) =
      take WINDOW_SIZE (drop (i - 4) ?seq) ! PAST_ELEMENTS"
    by (simp add: nth window_decision_def PAST_ELEMENTS_def WINDOW_SIZE_def)
  ultimately show ?thesis
    by simp
qed


lemma demo_polls_ingested: "ingested demo_polls = [0, 0, 0, 0, 100, 0, 0, 0, 0, 0]"
  by (simp add: demo_polls_def)

lemma demo_polls_run:
  "run demo_polls (FilterThreshold_init tv) =
     Some (fold ingest (ingested demo_polls) (FilterThreshold_init tv))"
  by (simp add: run_init demo_polls_def)

lemma demo_window_sum: "window_sum [0, 0, 0, 0, 100, 0, 0, 0, 0, 0] 4 = Finite 25"
  by (simp add: window_sum_def upt_9 FILTER_WINDOW_values double_of_u8_def fp_eval)

theorem window_correctness_witness:
  "run demo_polls (FilterThreshold_init (Finite 22)) =
     Some (fold ingest (ingested demo_polls) (FilterThreshold_init (Finite 22))) \<and>
   (4 :: nat) \<le> 4 \<and> 4 + 5 \<le> length (ingested demo_polls) \<and>
   printed (fold ingest (ingested demo_polls) (FilterThreshold_init (Finite 22))) ! (4 - 4) =
     \<lparr>element_value = 100, filtered_value = Finite 25, defect = True\<rparr>"
  using window_correctness [OF demo_polls_run, of 4 "Finite 22"]
  apply (simp only: demo_polls_run demo_polls_ingested demo_window_sum)
  apply simp
  done

text \<open>
  C3 (no fabricated decisions). A run that ends has printed exactly
  \<open>max(0, n - 8)\<close> decisions for \<open>n\<close> ingested samples. One ingest whose
  \<^verbatim>\<open>push_back\<close> brings the buffer to nine or more elements prints exactly one
  decision and removes exactly the head element; any other ingest prints nothing and
  only appends.
\<close>

theorem no_fabricated_decisions:
  assumes "run ps (FilterThreshold_init tv) = Some f"
  shows "int (length (printed f)) = max 0 (int (length (ingested ps)) - 8) \<and>
         length (printed (ingest x g)) =
           length (printed g) + (if WINDOW_SIZE \<le> length (data_buffer g @ [x]) then 1 else 0) \<and>
         data_buffer (ingest x g) =
           (if WINDOW_SIZE \<le> length (data_buffer g @ [x]) then tl (data_buffer g @ [x])
            else data_buffer g @ [x])"
proof -
  from assms have "f = fold ingest (ingested ps) (FilterThreshold_init tv)"
    by (simp add: run_init split: if_splits)
  then have "length (printed f) = length (ingested ps) - 8"
    by (simp add: fold_ingest_printed FilterThreshold_init_def)
  then have "int (length (printed f)) = max 0 (int (length (ingested ps)) - 8)"
    by simp
  then show ?thesis
    by (simp add: ingest_printed ingest_buffer)
qed


theorem no_fabricated_decisions_witness:
  "run demo_polls (FilterThreshold_init (Finite 22)) =
     Some (fold ingest (ingested demo_polls) (FilterThreshold_init (Finite 22))) \<and>
   length (ingested demo_polls) = 10 \<and>
   length (printed (fold ingest (ingested demo_polls) (FilterThreshold_init (Finite 22)))) = 2"
  using no_fabricated_decisions [OF demo_polls_run, where tv = "Finite 22", THEN conjunct1]
  by (simp add: demo_polls_run demo_polls_ingested del: fold_simps)

text \<open>
  C2 (residual bound), as stated: the residual length would be
  \<open>max(0, totalIngested - 4 - numDecisionsEmitted)\<close>. After five pairs the buffer holds
  eight samples and two decisions were printed, where the formula gives four.
\<close>

theorem residual_formula_counterexample:
  "map_option (\<lambda>f. (int (length (data_buffer f)),
       max 0 (int (length (ingested demo_polls)) - 4 - int (length (printed f)))))
     (run demo_polls (FilterThreshold_init (Finite 22))) = Some (8, 4)"
proof -
  let ?f = "fold ingest (ingested demo_polls) (FilterThreshold_init (Finite 22))"
  have "data_buffer ?f = drop (length (ingested demo_polls) - 8) (ingested demo_polls)"
    by (rule fold_ingest_buffer) (simp add: FilterThreshold_init_def)
  then have "length (data_buffer ?f) = 8"
    by (simp add: demo_polls_ingested)
  moreover have "length (printed ?f) = length (ingested demo_polls) - 8"
    by (subst fold_ingest_printed) (simp_all add: FilterThreshold_init_def)
  then have "length (printed ?f) = 2"
    by (simp add: demo_polls_ingested)
  moreover have "length (ingested demo_polls) = 10"
    by (simp add: demo_polls_ingested)
  ultimately show ?thesis
    by (simp add: demo_polls_run)
qed

text \<open>
  C2, amended. After a run that ends, the buffer holds fewer than nine samples; their
  number is the number of ingested samples minus the number of printed decisions, and
  they are the last eight ingested samples (all of them when fewer were ingested).
\<close>

theorem residual_bound:
  assumes "run ps (FilterThreshold_init tv) = Some f"
  shows "length (data_buffer f) < WINDOW_SIZE \<and>
         length (data_buffer f) = length (ingested ps) - length (printed f) \<and>
         length (printed f) \<le> length (ingested ps) \<and>
         data_buffer f = drop (length (ingested ps) - 8) (ingested ps)"
proof -
  from assms have "f = fold ingest (ingested ps) (FilterThreshold_init tv)"
    by (simp add: run_init split: if_splits)
  then have "data_buffer f = drop (length (ingested ps) - 8) (ingested ps)"
    and "length (printed f) = length (ingested ps) - 8"
    by (simp_all add: fold_ingest_buffer fold_ingest_printed FilterThreshold_init_def)
  then show ?thesis
    by (auto simp: WINDOW_SIZE_def)
qed

theorem residual_bound_witness:
  "run demo_polls (FilterThreshold_init (Finite 22)) =
     Some (fold ingest (ingested demo_polls) (FilterThreshold_init (Finite 22))) \<and>
   data_buffer (fold ingest (ingested demo_polls) (FilterThreshold_init (Finite 22))) =
     [0, 0, 100, 0, 0, 0, 0, 0]"
  using residual_bound [OF demo_polls_run, where tv = "Finite 22"]
  by (simp add: demo_polls_run demo_polls_ingested del: fold_simps)

text \<open>
  C7 (concrete scenario), as stated: nine samples of value 100 would give the filtered
  value 100.0. The weights add up to 1.25, and the printed value is 125.0.
\<close>

theorem nine_hundreds_counterexample:
  "filtered_value (hd (printed (fold ingest [100, 100, 100, 100, 100, 100, 100, 100, 100]
      (FilterThreshold_init (Finite 1275))))) \<noteq> Finite 100"
  unfolding nine_hundreds_printed by simp

text \<open>
  C7, amended. For nine ingested samples of value 100 the filter prints one decision,
  with filtered value 125.0: "no defect" for the threshold 1275.0 and "defect" for the
  threshold 50.0.
\<close>

theorem nine_hundreds_scenario:
  "printed (fold ingest [100, 100, 100, 100, 100, 100, 100, 100, 100]
      (FilterThreshold_init (Finite 1275))) =
     [\<lparr>element_value = 100, filtered_value = Finite 125, defect = False\<rparr>] \<and>
   printed (fold ingest [100, 100, 100, 100, 100, 100, 100, 100, 100]
      (FilterThreshold_init (Finite 50))) =
     [\<lparr>element_value = 100, filtered_value = Finite 125, defect = True\<rparr>]"
  unfolding nine_hundreds_printed by simp


section \<open>Properties of the blocking queue\<close>

lemma fold_push: "fold push xs q = q @ xs"
  by (induction xs arbitrary: q) (simp_all add: push_def)

lemma receive_all_prefix:
  "length ops \<le> length q \<Longrightarrow>
   receive_all ops q = Some (map Some (take (length ops) q), drop (length ops) q)"
proof (induction ops arbitrary: q)
  case Nil
  then show ?case by simp
next
  case (Cons op ops)
  then obtain x q1 where q: "q = x # q1"
    by (cases q) auto
  with Cons.prems have "length ops \<le> length q1"
    by simp
  then have "receive_all ops q1 =
      Some (map Some (take (length ops) q1), drop (length ops) q1)"
    by (rule Cons.IH)
  then show ?case
    by (cases op) (simp_all add: q try_pop_def pop_def)
qed

text \<open>
  C8 (FIFO preservation). After \<open>N\<close> pushes into an empty queue, any \<open>N\<close> polls
  and takes deliver the pushed elements in the order of the pushes and leave the queue
  empty. A push appends at the tail and always succeeds; a poll on an empty queue
  reports that nothing was found and leaves the queue empty.
\<close>

theorem fifo_preservation:
  assumes "length ops = length xs"
  shows "receive_all ops (fold push xs []) = Some (map Some xs, []) \<and>
         push x q = q @ [x] \<and>
         try_pop ([] :: 'a list) = (None, [])"
  using assms by (simp add: fold_push receive_all_prefix push_def try_pop_def)

theorem fifo_preservation_witness:
  "length [Poll, Take, Poll] = length [(1 :: u8, 2 :: u8), (3, 4), (5, 6)] \<and>
   receive_all [Poll, Take, Poll] (fold push [(1 :: u8, 2 :: u8), (3, 4), (5, 6)] []) =
     Some ([Some (1, 2), Some (3, 4), Some (5, 6)], [])"
proof -
  have len: "length [Poll, Take, Poll] = length [(1 :: u8, 2 :: u8), (3, 4), (5, 6)]"
    by simp
  from fifo_preservation [OF len, THEN conjunct1] len show ?thesis
    by (simp only: list.map simp_thms)
qed

section \<open>Properties of the data generator\<close>

lemma cell_values_simps [simp]:
  "cell_values [] = []"
  "cell_values (c # cs) = (case stoi c of Inr v \<Rightarrow> [word_of_int v] | Inl e \<Rightarrow> []) @ cell_values cs"
  by (simp_all add: cell_values_def)

lemma cell_errors_simps [simp]:
  "cell_errors lno [] = []"
  "cell_errors lno (c # cs) =
     (case stoi c of Inr v \<Rightarrow> [] | Inl invalid_argument \<Rightarrow> [InvalidArgument lno c]
      | Inl out_of_range \<Rightarrow> [OutOfRange lno c]) @ cell_errors lno cs"
  by (simp_all add: cell_errors_def)

lemma parse_cell_used:
  "count < m \<or> m \<le> 0 \<Longrightarrow>
   parse_cell m lno (count, row, out) c =
     (count + 1, row @ cell_values [c], out @ cell_errors lno [c])"
  by (simp add: parse_cell_def split: sum.splits stoi_error.splits)

lemma parse_cell_unused:
  "\<not> (count < m \<or> m \<le> 0) \<Longrightarrow>
   parse_cell m lno (count, row, out) c = (count + 1, row, out)"
  by (simp add: parse_cell_def)

lemma cell_values_append [simp]: "cell_values (xs @ ys) = cell_values xs @ cell_values ys"
  by (simp add: cell_values_def)

lemma cell_errors_append [simp]:
  "cell_errors lno (xs @ ys) = cell_errors lno xs @ cell_errors lno ys"
  by (simp add: cell_errors_def)

lemma foldl_parse_cell:
  "0 \<le> count \<Longrightarrow>
   foldl (parse_cell m lno) (count, row, out) cells =
     (count + int (length cells),
      row @ cell_values (if m \<le> 0 then cells else take (nat (m - count)) cells),
      out @ cell_errors lno (if m \<le> 0 then cells else take (nat (m - count)) cells))"
proof (induction cells arbitrary: count row out)
  case Nil
  then show ?case by simp
next
  case (Cons c cs)
  show ?case
  proof (cases "count < m \<or> m \<le> 0")
    case True
    have used: "(if m \<le> 0 then c # cs else take (nat (m - count)) (c # cs)) =
        [c] @ (if m \<le> 0 then cs else take (nat (m - (count + 1))) cs)"
    proof (cases "m \<le> 0")
      case True
      then show ?thesis by simp
    next
      case False
      with \<open>count < m \<or> m \<le> 0\<close> have "count < m" by simp
      with Cons.prems have "nat (m - count) = Suc (nat (m - (count + 1)))"
        by simp
      with False show ?thesis by simp
    qed
    have "foldl (parse_cell m lno) (count, row, out) (c # cs) =
        foldl (parse_cell m lno) (count + 1, row @ cell_values [c], out @ cell_errors lno [c]) cs"
      using True by (simp only: foldl_Cons parse_cell_used)
    also have "\<dots> = (count + 1 + int (length cs),
        (row @ cell_values [c]) @
          cell_values (if m \<le> 0 then cs else take (nat (m - (count + 1))) cs),
        (out @ cell_errors lno [c]) @
          cell_errors lno (if m \<le> 0 then cs else take (nat (m - (count + 1))) cs))"
      using Cons.prems by (intro Cons.IH) simp
    finally show ?thesis
      by (simp only: used cell_values_append cell_errors_append append_assoc)
        (simp add: add.assoc)
  next
    case False
    then have z: "nat (m - count) = 0" "nat (m - (count + 1)) = 0" "\<not> m \<le> 0"
      by simp_all
    have "foldl (parse_cell m lno) (count, row, out) (c # cs) =
        foldl (parse_cell m lno) (count + 1, row, out) cs"
      using False by (simp add: parse_cell_unused)
    also have "\<dots> = (count + 1 + int (length cs),
        row @ cell_values (if m \<le> 0 then cs else take (nat (m - (count + 1))) cs),
        out @ cell_errors lno (if m \<le> 0 then cs else take (nat (m - (count + 1))) cs))"
      using Cons.prems by (intro Cons.IH) simp
    finally show ?thesis
      by (simp add: z add.assoc)
  qed
qed

lemma parse_line_eq:
  "parse_line m lno line =
     (let cells = cells_of (stringstream line)
      in (cell_values (used_cells m cells),
          cell_errors lno (used_cells m cells) @
          (if 0 < m \<and> int (length cells) < m
           then [FewerColumns lno m (int (length cells))] else [])))"
  by (simp add: parse_line_def foldl_parse_cell used_cells_def Let_def)

lemma parse_line_values_lno: "fst (parse_line m lno line) = fst (parse_line m 0 line)"
  by (simp add: parse_line_eq Let_def)

lemma discarded_append [simp]: "discarded (xs @ ys) = discarded xs @ discarded ys"
  by (simp add: discarded_def)

lemma discarded_Nil [simp]: "discarded [] = []"
  by (simp add: discarded_def)

lemma discarded_Cons [simp]:
  "discarded (msg # out) =
     (case msg of OneElementDiscarded v \<Rightarrow> [v] | _ \<Rightarrow> []) @ discarded out"
  by (simp add: discarded_def)

lemma discarded_cell_errors [simp]: "discarded (cell_errors lno cells) = []"
  by (induction cells) (simp_all split: sum.splits stoi_error.splits)

lemma discarded_parse_line [simp]: "discarded (snd (parse_line m lno line)) = []"
  by (simp add: parse_line_eq Let_def)

lemma stream_values_getline:
  "fst (getline newline s) \<Longrightarrow>
   stream_values m s =
     fst (parse_line m 0 (fst (snd (getline newline s)))) @
     stream_values m (snd (snd (getline newline s)))"
  by (subst stream_values_def, subst lines_from.simps) (simp add: stream_values_def Let_def)

lemma stream_values_done:
  "\<not> fst (getline newline s) \<Longrightarrow> stream_values m s = []"
  by (subst stream_values_def, subst lines_from.simps) (simp add: Let_def)

lemma getline_fails_when_eof: "eofbit s \<Longrightarrow> \<not> fst (getline delim s)"
  by (simp add: getline_def)

lemma getline_false_flags:
  "\<not> fst (getline delim s) \<Longrightarrow> stream_ok s \<Longrightarrow>
   eofbit (snd (snd (getline delim s))) \<and> failbit (snd (snd (getline delim s)))"
  by (auto simp: getline_def stream_ok_def split: if_splits)

lemma getline_stream_ok: "stream_ok s \<Longrightarrow> stream_ok (snd (snd (getline delim s)))"
  by (auto simp: getline_def stream_ok_def split: if_splits)

lemma getline_is_open [simp]: "is_open (snd (snd (getline delim s))) = is_open s"
  by (simp add: getline_def)

lemma take_value_fields:
  "output_queue (take_value g) = output_queue g"
  "m_columns (take_value g) = m_columns g"
  "files (take_value g) = files g"
  "csv_filepath (take_value g) = csv_filepath g"
  "use_csv_mode (take_value g) = use_csv_mode g"
  "gen_running (take_value g) = gen_running g"
  "random_engine (take_value g) = random_engine g"
  "random_drawn (take_value g) = random_drawn g"
  "csv_file_stream (take_value g) = csv_file_stream g"
  "console (take_value g) = console g"
  by (simp_all add: take_value_def)

lemma new_row_fields:
  "output_queue (new_row g line s) = output_queue g"
  "m_columns (new_row g line s) = m_columns g"
  "files (new_row g line s) = files g"
  "csv_filepath (new_row g line s) = csv_filepath g"
  "use_csv_mode (new_row g line s) = use_csv_mode g"
  "gen_running (new_row g line s) = gen_running g"
  "random_engine (new_row g line s) = random_engine g"
  "random_drawn (new_row g line s) = random_drawn g"
  "csv_file_stream (new_row g line s) = s"
  "csv_buffer (new_row g line s) = csv_buffer g"
  "current_row_idx (new_row g line s) = 0"
  "discarded (console (new_row g line s)) = discarded (console g)"
  by (simp_all add: new_row_def Let_def)

lemma fill_post_take_value:
  assumes "length (csv_buffer g) < 2" "current_row_idx g < length (current_row_values g)"
    and "fill_post (take_value g) g'"
  shows "fill_post g g'"
proof -
  have p: "pending (take_value g) = pending g"
    using assms(2) by (simp add: pending_def take_value_def Cons_nth_drop_Suc)
  have "length (csv_buffer (take_value g)) = Suc (length (csv_buffer g))"
    by (simp add: take_value_def)
  with assms(1,3) p show ?thesis
    unfolding fill_post_def by (auto simp: take_value_fields)
qed

lemma fill_post_new_row:
  assumes "\<not> current_row_idx g < length (current_row_values g)"
    and "fst (getline newline (csv_file_stream g))"
    and "fill_post (new_row g (fst (snd (getline newline (csv_file_stream g))))
           (snd (snd (getline newline (csv_file_stream g))))) g'"
  shows "fill_post g g'"
proof -
  let ?g1 = "new_row g (fst (snd (getline newline (csv_file_stream g))))
           (snd (snd (getline newline (csv_file_stream g))))"
  have p: "pending ?g1 = pending g"
    using assms(1,2)
    by (simp add: pending_def new_row_def Let_def stream_values_getline [of "csv_file_stream g"]
        parse_line_values_lno [of _ "line_number g + 1"])
  from assms(3) p show ?thesis
    unfolding fill_post_def by (auto simp: new_row_fields)
qed

lemma fill_post_refl_full:
  "stream_ok (csv_file_stream g) \<Longrightarrow> \<not> length (csv_buffer g) < 2 \<Longrightarrow> fill_post g g"
  by (simp add: fill_post_def)

lemma fill_post_getline_false:
  assumes "stream_ok (csv_file_stream g)"
    and "\<not> current_row_idx g < length (current_row_values g)"
    and "\<not> fst (getline newline (csv_file_stream g))"
  shows "fill_post g (g\<lparr>csv_file_stream := snd (snd (getline newline (csv_file_stream g)))\<rparr>)"
proof -
  let ?s' = "snd (snd (getline newline (csv_file_stream g)))"
  from assms(1,3) have fl: "eofbit ?s'" "failbit ?s'"
    using getline_false_flags by blast+
  then have "stream_values (m_columns g) ?s' = []"
    by (simp add: stream_values_done getline_fails_when_eof)
  moreover have "stream_values (m_columns g) (csv_file_stream g) = []"
    using assms(3) by (simp add: stream_values_done)
  moreover have "stream_ok ?s'"
    using assms(1) by (rule getline_stream_ok)
  ultimately show ?thesis
    using assms(2) fl by (simp add: fill_post_def pending_def)
qed

lemma fill_post_break:
  assumes "stream_ok (csv_file_stream g)"
    and "eofbit (csv_file_stream g)" "current_row_values g = []" "current_row_idx g = 0"
    and "length (csv_buffer g) < 2"
  shows "fill_post g g"
  using assms
  by (simp add: fill_post_def stream_values_done getline_fails_when_eof)

lemma fill_buffer_post:
  "stream_ok (csv_file_stream g) \<Longrightarrow> fill_post g (fill_buffer g)"
proof (induction g rule: fill_buffer.induct)
  case (1 g)
  let ?r = "getline newline (csv_file_stream g)"
  let ?g1 = "new_row g (fst (snd ?r)) (snd (snd ?r))"
  have ok1: "stream_ok (csv_file_stream ?g1)"
    using "1.prems" by (simp add: new_row_def Let_def getline_stream_ok)
  show ?case
  proof (cases "length (csv_buffer g) < 2")
    case False
    with "1.prems" show ?thesis
      by (subst fill_buffer.simps) (simp add: fill_post_refl_full)
  next
    case short: True
    show ?thesis
    proof (cases "current_row_idx g < length (current_row_values g)")
      case True
      have "fill_post (take_value g) (fill_buffer (take_value g))"
        by (rule "1.IH"(1)) (use short True "1.prems" in \<open>simp_all add: take_value_def\<close>)
      with short True have "fill_post g (fill_buffer (take_value g))"
        by (rule fill_post_take_value)
      with short True show ?thesis
        by (subst fill_buffer.simps) simp
    next
      case noval: False
      show ?thesis
      proof (cases "fst ?r")
        case False
        with short noval "1.prems" show ?thesis
          by (subst fill_buffer.simps) (simp add: fill_post_getline_false)
      next
        case got: True
        have idx0: "current_row_idx ?g1 = 0" and buf1: "csv_buffer ?g1 = csv_buffer g"
          by (simp_all add: new_row_def Let_def)
        show ?thesis
        proof (cases "current_row_idx ?g1 < length (current_row_values ?g1)")
          case True
          have "fill_post (take_value ?g1) (fill_buffer (take_value ?g1))"
            by (rule "1.IH"(2))
              (use short noval got True ok1 in \<open>simp_all add: take_value_def\<close>)
          moreover have "length (csv_buffer ?g1) < 2"
            using short buf1 by simp
          ultimately have "fill_post ?g1 (fill_buffer (take_value ?g1))"
            using True by (intro fill_post_take_value [of ?g1])
          with noval got have "fill_post g (fill_buffer (take_value ?g1))"
            by (rule fill_post_new_row)
          with short noval got True show ?thesis
            by (subst fill_buffer.simps) (simp add: Let_def)
        next
          case empty: False
          then have row1: "current_row_values ?g1 = []"
            by (simp add: idx0)
          show ?thesis
          proof (cases "eofbit (csv_file_stream ?g1)")
            case True
            with ok1 row1 idx0 short buf1 have "fill_post ?g1 ?g1"
              by (intro fill_post_break [of ?g1]) simp_all
            with noval got have "fill_post g ?g1"
              by (rule fill_post_new_row)
            with short noval got empty True row1 show ?thesis
              by (subst fill_buffer.simps) (simp add: Let_def)
          next
            case False
            have "fill_post ?g1 (fill_buffer ?g1)"
              by (rule "1.IH"(3)) (use short noval got empty False ok1 in simp_all)
            with noval got have "fill_post g (fill_buffer ?g1)"
              by (rule fill_post_new_row)
            with short noval got empty False show ?thesis
              by (subst fill_buffer.simps) (simp add: Let_def)
          qed
        qed
      qed
    qed
  qed
qed

lemma pairs_drop2: "2 \<le> length xs \<Longrightarrow> pairs xs = (xs ! 0, xs ! 1) # pairs (drop 2 xs)"
  by (cases xs rule: pairs.cases) simp_all

lemma pairs_short: "length xs < 2 \<Longrightarrow> pairs xs = []"
  by (cases xs rule: pairs.cases) simp_all

lemma leftover_drop2: "2 \<le> length xs \<Longrightarrow> leftover (drop 2 xs) = leftover xs"
  by (cases xs rule: pairs.cases) (simp_all add: leftover_def)

lemma leftover_short: "length xs < 2 \<Longrightarrow> leftover xs = xs"
  by (cases xs rule: pairs.cases) (simp_all add: leftover_def)

lemma fill_postD:
  assumes "fill_post g g'"
  shows "output_queue g' = output_queue g" and "m_columns g' = m_columns g"
    and "use_csv_mode g' = use_csv_mode g" and "gen_running g' = gen_running g"
    and "is_open (csv_file_stream g') = is_open (csv_file_stream g)"
    and "discarded (console g') = discarded (console g)"
    and "pending g' = pending g" and "stream_ok (csv_file_stream g')"
    and "length (csv_buffer g) \<le> 2 \<Longrightarrow> length (csv_buffer g') \<le> 2"
    and "length (csv_buffer g') < 2 \<Longrightarrow> eofbit (csv_file_stream g')"
    and "length (csv_buffer g') < 2 \<Longrightarrow> length (current_row_values g') \<le> current_row_idx g'"
    and "length (csv_buffer g') < 2 \<Longrightarrow> stream_values (m_columns g) (csv_file_stream g') = []"
  using assms by (simp_all add: fill_post_def)

lemma fill_short_pending:
  assumes "fill_post g g1" "length (csv_buffer g1) < 2"
  shows "pending g1 = csv_buffer g1"
  using fill_postD(2,11,12) [OF assms(1)] assms(2) by (simp add: pending_def)

lemma read_csv_pair_full:
  assumes "gen_inv g" and "2 \<le> length (pending g)"
  shows "fst (read_csv_pair g) \<and> gen_inv (snd (read_csv_pair g)) \<and>
         gen_running (snd (read_csv_pair g)) = gen_running g \<and>
         pending (snd (read_csv_pair g)) = drop 2 (pending g) \<and>
         output_queue (snd (read_csv_pair g)) =
           output_queue g @ [(pending g ! 0, pending g ! 1)] \<and>
         discarded (console (snd (read_csv_pair g))) = discarded (console g)"
proof -
  let ?g1 = "fill_buffer g"
  let ?g2 = "?g1\<lparr>csv_buffer := drop 2 (csv_buffer ?g1),
              output_queue := push (csv_buffer ?g1 ! 0, csv_buffer ?g1 ! 1) (output_queue ?g1)\<rparr>"
  from assms(1) have inv: "use_csv_mode g" "is_open (csv_file_stream g)"
      "stream_ok (csv_file_stream g)" "length (csv_buffer g) < 2"
    by (simp_all add: gen_inv_def)
  from inv(3) have post: "fill_post g ?g1"
    by (rule fill_buffer_post)
  note D = fill_postD [OF post]
  have len: "length (csv_buffer ?g1) = 2"
  proof (rule ccontr)
    assume "length (csv_buffer ?g1) \<noteq> 2"
    moreover have "length (csv_buffer ?g1) \<le> 2"
      using inv(4) by (intro D(9)) simp
    ultimately have short: "length (csv_buffer ?g1) < 2"
      by simp
    with post have "pending ?g1 = csv_buffer ?g1"
      by (rule fill_short_pending)
    with short assms(2) D(7) show False
      by simp
  qed
  have pend: "pending g = csv_buffer ?g1 @
      drop (current_row_idx ?g1) (current_row_values ?g1) @
      stream_values (m_columns ?g1) (csv_file_stream ?g1)"
    using D(7) by (simp add: pending_def)
  from len have nth: "pending g ! 0 = csv_buffer ?g1 ! 0"
      "pending g ! Suc 0 = csv_buffer ?g1 ! Suc 0"
    by (simp_all add: pend nth_append)
  from len have d2: "drop 2 (pending g) = pending ?g2"
    by (subst pend) (simp add: pending_def)
  have rd: "read_csv_pair g = (True, ?g2)"
    using len inv(2) by (simp add: read_csv_pair_def Let_def)
  have "gen_inv ?g2"
    using inv D(3,5,8) len by (simp add: gen_inv_def)
  moreover have "gen_running ?g2 = gen_running g"
    using D(4) by simp
  moreover have "output_queue ?g2 = output_queue g @ [(pending g ! 0, pending g ! 1)]"
    using D(1) by (simp add: push_def nth)
  moreover have "discarded (console ?g2) = discarded (console g)"
    using D(6) by simp
  ultimately show ?thesis
    by (simp only: rd fst_conv snd_conv d2)
qed

lemma read_csv_pair_end:
  assumes "gen_inv g" and "length (pending g) < 2"
  shows "\<not> fst (read_csv_pair g) \<and>
         output_queue (snd (read_csv_pair g)) = output_queue g \<and>
         discarded (console (snd (read_csv_pair g))) = discarded (console g) @ pending g"
proof -
  let ?g1 = "fill_buffer g"
  from assms(1) have inv: "use_csv_mode g" "is_open (csv_file_stream g)"
      "stream_ok (csv_file_stream g)" "length (csv_buffer g) < 2"
    by (simp_all add: gen_inv_def)
  from inv(3) have post: "fill_post g ?g1"
    by (rule fill_buffer_post)
  note D = fill_postD [OF post]
  have "length (csv_buffer ?g1) \<le> length (pending ?g1)"
    by (simp add: pending_def)
  with assms(2) D(7) have short: "length (csv_buffer ?g1) < 2"
    by simp
  with post have "pending ?g1 = csv_buffer ?g1"
    by (rule fill_short_pending)
  with D(7) have pend: "pending g = csv_buffer ?g1"
    by simp
  note fl = D(10,11) [OF short]
  show ?thesis
  proof (cases "csv_buffer ?g1")
    case Nil
    with inv(2) D(1,6) show ?thesis
      by (simp add: read_csv_pair_def Let_def pend)
  next
    case (Cons v vs)
    with short have vs: "vs = []"
      by simp
    with Cons inv(2) fl D(1,6) show ?thesis
      by (simp add: read_csv_pair_def Let_def pend)
  qed
qed

lemma generator_loop_csv:
  "gen_inv g \<Longrightarrow> gen_running g \<Longrightarrow>
   map_option summary (generator_loop g) =
     Some (output_queue g @ pairs (pending g), discarded (console g) @ leftover (pending g))"
proof (induction "length (pending g)" arbitrary: g rule: less_induct)
  case less
  from less.prems have csv: "use_csv_mode g"
    by (simp add: gen_inv_def)
  show ?case
  proof (cases "2 \<le> length (pending g)")
    case True
    let ?g' = "snd (read_csv_pair g)"
    note R = read_csv_pair_full [OF less.prems(1) True]
    from R have ok: "fst (read_csv_pair g)" and inv': "gen_inv ?g'"
      and run': "gen_running ?g'" and pend': "pending ?g' = drop 2 (pending g)"
      and q': "output_queue ?g' = output_queue g @ [(pending g ! 0, pending g ! 1)]"
      and d': "discarded (console ?g') = discarded (console g)"
      using less.prems(2) by simp_all
    have "length (pending ?g') < length (pending g)"
      using True by (simp add: pend')
    then have IH: "map_option summary (generator_loop ?g') =
        Some (output_queue ?g' @ pairs (pending ?g'),
              discarded (console ?g') @ leftover (pending ?g'))"
      using inv' run' by (rule less.hyps)
    have "generator_loop g = generator_loop ?g'"
      using less.prems(2) csv ok by (subst generator_loop.simps) simp
    with IH True show ?thesis
      by (simp add: pend' q' d' pairs_drop2 [OF True] leftover_drop2)
  next
    case False
    then have short: "length (pending g) < 2"
      by simp
    let ?g' = "snd (read_csv_pair g)"
    let ?g2 = "generator_stop (?g'\<lparr>console := console ?g' @ [EndOfCsvData]\<rparr>)"
    note R = read_csv_pair_end [OF less.prems(1) short]
    have stopped: "\<not> gen_running ?g2"
      by (simp add: generator_stop_def Let_def)
    have "generator_loop g = generator_loop ?g2"
      using less.prems(2) csv R by (subst generator_loop.simps) simp
    also have "\<dots> = Some ?g2"
      using stopped by (subst generator_loop.simps) simp
    finally have "generator_loop g = Some ?g2" .
    moreover have "output_queue ?g2 = output_queue g"
      using R by (simp add: generator_stop_def Let_def)
    moreover have "discarded (console ?g2) = discarded (console g) @ pending g"
      using R by (simp add: generator_stop_def Let_def)
    ultimately show ?thesis
      using short by (simp add: summary_def pairs_short leftover_short)
  qed
qed

text \<open>
  C6 (odd-count trailing value). For a file that can be opened, the run of the generator
  in CSV mode ends; it has pushed the values of the file two by two, in order, and
  nothing else. When the number of values is odd, the last one is discarded with the
  notice \<open>OneElementDiscarded\<close>; no other notice of that kind is printed. The file
  of seven values in one row with \<open>m = 7\<close> gives three pairs and the notice for 7.
\<close>

theorem odd_trailing_value:
  assumes "path \<noteq> []" and "fs path = Some text"
  shows "map_option summary (generator_run (DataGenerator_init fs rnd q m path)) =
           Some (q @ pairs (file_values m text), leftover (file_values m text))"
proof -
  let ?g = "DataGenerator_init fs rnd q m path"
  from assms have g: "?g =
      \<lparr>output_queue = q, m_columns = m, files = fs, csv_filepath = path,
       use_csv_mode = True, gen_running = True, random_engine = rnd, random_drawn = 0,
       csv_file_stream = \<lparr>unread = text, eofbit = False, failbit = False, is_open = True\<rparr>,
       current_row_values = [], current_row_idx = 0, line_number = 0,
       csv_buffer = [], console = []\<rparr>"
    by (simp add: DataGenerator_init_def open_csv_def Let_def)
  have inv: "gen_inv ?g" and run: "gen_running ?g"
    by (simp_all add: g gen_inv_def stream_ok_def)
  have pend: "pending ?g = file_values m text"
    by (simp add: g pending_def file_values_def)
  have q: "output_queue ?g = q" and c: "console ?g = []"
    by (simp_all add: g)
  from generator_loop_csv [OF inv run]
  obtain g2 where loop: "generator_loop ?g = Some g2"
    and s2: "summary g2 = (q @ pairs (file_values m text), leftover (file_values m text))"
    by (auto simp: pend q c)
  from inv have "is_open (csv_file_stream ?g)"
    by (simp add: gen_inv_def)
  then have "generator_run ?g =
      Some ((if is_open (csv_file_stream g2)
             then g2\<lparr>csv_file_stream := (csv_file_stream g2)\<lparr>is_open := False\<rparr>\<rparr>
             else g2)\<lparr>console := console g2 @ [ExitingRunLoop]\<rparr>)"
    by (simp add: generator_run_def loop)
  with s2 show ?thesis
    by (simp add: summary_def)
qed

lemma seven_values_file: "file_values 7 seven_values = [1, 2, 3, 4, 5, 6, 7]"
  by code_simp

theorem odd_trailing_value_witness:
  "''scan.csv'' \<noteq> [] \<and> scan_files ''scan.csv'' = Some seven_values \<and>
   map_option summary (generator_run (DataGenerator_init scan_files (\<lambda>n. 0) [] 7 ''scan.csv'')) =
     Some ([(1, 2), (3, 4), (5, 6)], [7])"
proof -
  have f: "scan_files ''scan.csv'' = Some seven_values"
    by (simp add: scan_files_def)
  have "pairs (file_values 7 seven_values) = [(1, 2), (3, 4), (5, 6)]"
    and "leftover (file_values 7 seven_values) = [7]"
    by (simp_all add: seven_values_file leftover_def)
  with odd_trailing_value [of "''scan.csv''" scan_files seven_values "\<lambda>n. 0" "[]" 7] f
  show ?thesis
    by simp
qed

lemma stoi_range: "stoi cell = Inr v \<Longrightarrow> - 2147483648 \<le> v \<and> v \<le> 2147483647"
  by (auto simp: stoi_def Let_def split: if_splits)

lemma stoi_300: "stoi ''300'' = Inr 300"
  by (simp add: stoi_def isspace_def isdigit_def digits_value_def)

text \<open>
  C9 (narrowing of out-of-range cells). For a cell among the columns that are read,
  when \<^verbatim>\<open>std::stoi\<close> returns a value (any value of the \<^verbatim>\<open>int\<close> range), the
  cell adds one sample to the row, the value reduced modulo 256, and prints nothing. The
  row stays as it was exactly when \<^verbatim>\<open>std::stoi\<close> throws, and exactly then a
  message is printed. The cell "300" gives the sample 44.
\<close>

theorem out_of_byte_range_narrowed:
  assumes "count < m \<or> m \<le> 0"
  shows "(stoi cell = Inr v \<longrightarrow>
            parse_cell m lno (count, row, out) cell = (count + 1, row @ [word_of_int v], out) \<and>
            uint (word_of_int v :: u8) = v mod 256 \<and>
            - 2147483648 \<le> v \<and> v \<le> 2147483647) \<and>
         (fst (snd (parse_cell m lno (count, row, out) cell)) = row) = isl (stoi cell) \<and>
         (snd (snd (parse_cell m lno (count, row, out) cell)) = out) = (\<not> isl (stoi cell))"
proof -
  have "uint (word_of_int v :: u8) = v mod 256"
    by (simp add: uint_word_of_int)
  with assms show ?thesis
    by (auto simp: parse_cell_def stoi_range split: sum.splits stoi_error.splits)
qed

theorem out_of_byte_range_narrowed_witness:
  "stoi ''300'' = Inr 300 \<and>
   parse_cell 1 1 (0, [], []) ''300'' = (1, [44], []) \<and>
   uint (44 :: u8) = 300 mod 256"
  using out_of_byte_range_narrowed [of 0 1 "''300''" 300 1 "[]" "[]"]
  by (simp add: stoi_300)

text \<open>
  C10 (cells beyond the declared column count). The row read from a line is made of the
  cells that parse among the first \<open>m\<close> cells when \<open>m\<close> is positive, and among
  all cells otherwise; error messages come from those cells only; and the one warning
  about the column count is printed exactly when \<open>m\<close> is positive and the line has
  fewer than \<open>m\<close> cells. Cells after the first \<open>m\<close> change neither the row nor
  the messages.
\<close>

theorem columns_beyond_m_discarded:
  "parse_line m lno line =
     (let cells = cells_of (stringstream line);
          used = (if 0 < m then take (nat m) cells else cells)
      in (cell_values used,
          cell_errors lno used @
          (if 0 < m \<and> int (length cells) < m
           then [FewerColumns lno m (int (length cells))] else [])))"
  by (simp add: parse_line_eq used_cells_def Let_def)

section \<open>Properties of the pipeline\<close>

lemma drain_running [simp]: "running (drain f) = running f"
  by (induction f rule: drain.induct) (subst drain.simps, simp add: process_element_def Let_def)

lemma drain_length: "length (data_buffer (drain f)) < WINDOW_SIZE"
  by (induction f rule: drain.induct) (subst drain.simps, simp)

lemma handshake_inv_init: "handshake_inv (pipeline_init tv)"
  by (simp add: handshake_inv_def pipeline_init_def FilterThreshold_init_def)

lemma handshake_inv_step:
  "handshake_inv s \<Longrightarrow> step a s = Some s' \<Longrightarrow> handshake_inv s'"
  by (cases a; cases "main_at s"; cases "consumer_at s")
     (auto simp: handshake_inv_def drain_length queue_empty_def try_pop_def push_def
       split: if_splits option.splits list.splits)

lemma handshake_inv_exec:
  "handshake_inv s \<Longrightarrow> exec as s = Some s' \<Longrightarrow> handshake_inv s'"
  by (induction as arbitrary: s) (auto split: option.splits dest: handshake_inv_step)

text \<open>
  C4 (termination handshake). In every state the pipeline reaches: the finished flag is
  set only when the producer has exited; the filter's thread is past its polling loop
  only when it found the queue empty with the flag set, and then the producer has
  exited and the queue is empty, so no pushed pair is left undelivered; and when the
  filter's thread has exited, the loop after the polling loop has processed every full
  window, leaving fewer than nine samples.
\<close>

theorem termination_handshake:
  assumes "exec as (pipeline_init tv) = Some s"
  shows "(producer_is_finished s \<longrightarrow> \<not> producer_running s) \<and>
         (consumer_at s = AfterLoop \<or> consumer_at s = Exited \<longrightarrow>
            producer_is_finished s \<and> \<not> producer_running s \<and> data_queue s = []) \<and>
         (consumer_at s = Exited \<longrightarrow> length (data_buffer (filter_thresh s)) < WINDOW_SIZE)"
  using handshake_inv_exec [OF handshake_inv_init assms]
  by (simp add: handshake_inv_def split: if_splits)

lemma demo_schedule_exec:
  "exec demo_schedule (pipeline_init tv) =
     Some \<lparr>data_queue = [], producer_is_finished = True, producer_running = False,
           main_at = Done, consumer_at = Exited,
           filter_thresh = \<lparr>threshold_value = tv, running = True,
                              data_buffer = [1, 2, 3, 4], printed = []\<rparr>\<rparr>"
  by (simp add: demo_schedule_def pipeline_init_def FilterThreshold_init_def push_def
      try_pop_def queue_empty_def ingest_def WINDOW_SIZE_def drain.simps)

theorem termination_handshake_witness:
  "exec demo_schedule (pipeline_init (Finite 22)) =
     Some \<lparr>data_queue = [], producer_is_finished = True, producer_running = False,
           main_at = Done, consumer_at = Exited,
           filter_thresh = \<lparr>threshold_value = Finite 22, running = True,
                              data_buffer = [1, 2, 3, 4], printed = []\<rparr>\<rparr> \<and>
   length [1, 2, 3, 4 :: u8] < WINDOW_SIZE"
  using termination_handshake [OF demo_schedule_exec [of "Finite 22"]]
  by (simp add: demo_schedule_exec)

end
